theory Spec2Isabelle
  imports Complex_Main "HOL-Library.Word" "HOL-Library.Multiset" "HOL-Library.List_Lexorder"
begin

unbundle bit_operations_syntax

section \<open>Buffers and errors\<close>

text \<open>A \<^verbatim>\<open>Buffer\<close> is a sequence of bytes.\<close>

type_synonym buffer = "8 word list"

text \<open>A thrown \<^verbatim>\<open>Error\<close> object: its message and, when one was attached, its \<^verbatim>\<open>code\<close>.\<close>

datatype error = Error (message: string) (code: "string option")

section \<open>Identifier codec: base32 text\<close>

text \<open>
  Modelled from the spec: the package \<^verbatim>\<open>base32.js\<close> (\<^verbatim>\<open>const base32 = require('base32.js')\<close>)
  is not part of the sources. The spec fixes its contract only: a lossless encoding of
  bytes into a restricted alphabet, without padding, and a decoder for it. The
  definitions follow the package's default variant, RFC 4648: an \<^verbatim>\<open>Encoder\<close> and a
  \<^verbatim>\<open>Decoder\<close> object, each with an output buffer \<^verbatim>\<open>buf\<close>, a bit position \<^verbatim>\<open>shift\<close> and
  the bits carried over in \<^verbatim>\<open>carry\<close>. JavaScript's \<^verbatim>\<open>>>\<close>, \<^verbatim>\<open><<\<close>, \<^verbatim>\<open>|\<close> and \<^verbatim>\<open>&\<close> act on
  numbers that stay far below \<open>2 ^ 31\<close> here, so they are \<open>drop_bit\<close>, \<open>push_bit\<close>,
  \<open>OR\<close> and \<open>AND\<close> on natural numbers.
\<close>

definition alphabet :: string where
  "alphabet = ''ABCDEFGHIJKLMNOPQRSTUVWXYZ234567''"

text \<open>
  The decoder's character map: the position of each letter of the alphabet, and the
  two look-alikes \<^verbatim>\<open>0\<close> (read as \<^verbatim>\<open>O\<close>) and \<^verbatim>\<open>1\<close> (read as \<^verbatim>\<open>I\<close>), which take precedence.
\<close>

definition charmap :: "(char \<times> nat) list" where
  "charmap = [(CHR ''0'', 14), (CHR ''1'', 8)] @ zip alphabet [0..<32]"

text \<open>\<^verbatim>\<open>String.prototype.toUpperCase\<close>, on the ASCII characters base32 text is made of.\<close>

definition toUpperCase :: "char \<Rightarrow> char" where
  "toUpperCase c =
     (if 97 \<le> (of_char c :: nat) \<and> (of_char c :: nat) \<le> 122
      then char_of ((of_char c :: nat) - 32) else c)"

record Encoder =
  enc_buf :: string
  enc_shift :: nat
  enc_carry :: nat

definition new_Encoder :: Encoder where
  "new_Encoder = \<lparr>enc_buf = [], enc_shift = 3, enc_carry = 0\<rparr>"

text \<open>
  One round of the loop of \<^verbatim>\<open>Encoder.prototype.write\<close>:
  \<^verbatim>\<open>
      byte = buf[i];
      symbol = carry | (byte >> shift);
      this.buf += this.alphabet[symbol & 0x1f];
      if (shift > 5) {
        shift -= 5;
        symbol = byte >> shift;
        this.buf += this.alphabet[symbol & 0x1f];
      }
      shift = 5 - shift;
      carry = byte << shift;
      shift = 8 - shift;
  \<close>
\<close>

definition Encoder_step :: "Encoder \<Rightarrow> 8 word \<Rightarrow> Encoder" where
  "Encoder_step e b =
     (let byte = unat b;
          symbol = enc_carry e OR drop_bit (enc_shift e) byte;
          buf1 = enc_buf e @ [alphabet ! (symbol AND 31)];
          shift1 = (if enc_shift e > 5 then enc_shift e - 5 else enc_shift e);
          buf2 = (if enc_shift e > 5 then buf1 @ [alphabet ! (drop_bit shift1 byte AND 31)]
                  else buf1);
          shift2 = 5 - shift1
      in \<lparr>enc_buf = buf2, enc_shift = 8 - shift2, enc_carry = push_bit shift2 byte\<rparr>)"

definition Encoder_write :: "Encoder \<Rightarrow> buffer \<Rightarrow> Encoder" where
  "Encoder_write e bytes = foldl Encoder_step e bytes"

text \<open>
  \<^verbatim>\<open>Encoder.prototype.finalize\<close>:
  \<^verbatim>\<open>
    if (this.shift !== 3) {
      this.buf += this.alphabet[this.carry & 0x1f];
      this.shift = 3;
      this.carry = 0;
    }
    return this.buf;
  \<close>
\<close>

definition Encoder_finalize :: "Encoder \<Rightarrow> string" where
  "Encoder_finalize e =
     (if enc_shift e \<noteq> 3 then enc_buf e @ [alphabet ! (enc_carry e AND 31)] else enc_buf e)"

record Decoder =
  dec_buf :: "nat list"
  dec_shift :: int
  dec_carry :: nat

definition new_Decoder :: Decoder where
  "new_Decoder = \<lparr>dec_buf = [], dec_shift = 8, dec_carry = 0\<rparr>"

text \<open>
  One character in \<^verbatim>\<open>Decoder.prototype.write\<close>, after \<^verbatim>\<open>str.toUpperCase()\<close>:
  \<^verbatim>\<open>
      if (char == "=") return;
      var symbol = charmap[char] & 0xff;
      shift -= 5;
      if (shift > 0) {
        carry |= symbol << shift;
      } else if (shift < 0) {
        buf.push(carry | (symbol >> -shift));
        shift += 8;
        carry = (symbol << shift) & 0xff;
      } else {
        buf.push(carry | symbol);
        shift = 8;
        carry = 0;
      }
  \<close>
  A character that is not in the map gives \<^verbatim>\<open>undefined & 0xff\<close>, which is \<open>0\<close>.
  \<open>Decoder_symbol\<close> is the part from \<^verbatim>\<open>shift -= 5\<close> on.
\<close>

definition Decoder_symbol :: "Decoder \<Rightarrow> nat \<Rightarrow> Decoder" where
  "Decoder_symbol d symbol =
     (let shift = dec_shift d - 5
      in if shift > 0 then
           d\<lparr>dec_shift := shift, dec_carry := dec_carry d OR push_bit (nat shift) symbol\<rparr>
         else if shift < 0 then
           \<lparr>dec_buf = dec_buf d @ [dec_carry d OR drop_bit (nat (- shift)) symbol],
            dec_shift = shift + 8,
            dec_carry = push_bit (nat (shift + 8)) symbol AND 255\<rparr>
         else
           \<lparr>dec_buf = dec_buf d @ [dec_carry d OR symbol], dec_shift = 8, dec_carry = 0\<rparr>)"

definition Decoder_step :: "Decoder \<Rightarrow> char \<Rightarrow> Decoder" where
  "Decoder_step d c =
     (if c = CHR ''='' then d
      else Decoder_symbol d (case map_of charmap c of Some v \<Rightarrow> v AND 255 | None \<Rightarrow> 0))"

definition Decoder_write :: "Decoder \<Rightarrow> string \<Rightarrow> Decoder" where
  "Decoder_write d str = foldl Decoder_step d (map toUpperCase str)"

text \<open>
  \<^verbatim>\<open>Decoder.prototype.finalize\<close>:
  \<^verbatim>\<open>
    if (this.shift !== 8 && this.carry !== 0) {
      this.buf.push(this.carry);
      this.shift = 8;
      this.carry = 0;
    }
    return this.buf;
  \<close>
\<close>

definition Decoder_finalize :: "Decoder \<Rightarrow> nat list" where
  "Decoder_finalize d =
     (if dec_shift d \<noteq> 8 \<and> dec_carry d \<noteq> 0 then dec_buf d @ [dec_carry d] else dec_buf d)"

text \<open>
  \<^verbatim>\<open>
  exports.encodeBase32 = (buf) => {
    const enc = new base32.Encoder()
    return enc.write(buf).finalize()
  }
  exports.decodeBase32 = (raw) => {
    const dec = new base32.Decoder()
    return Buffer.from(dec.write(raw).finalize())
  }
  \<close>
  \<^verbatim>\<open>Buffer.from\<close> on an array of numbers keeps the low eight bits of each.
\<close>

definition encodeBase32 :: "buffer \<Rightarrow> string" where
  "encodeBase32 buf = Encoder_finalize (Encoder_write new_Encoder buf)"

definition decodeBase32 :: "string \<Rightarrow> buffer" where
  "decodeBase32 raw = map of_nat (Decoder_finalize (Decoder_write new_Decoder raw))"

text \<open>
  A \<^verbatim>\<open>Key\<close> of \<^verbatim>\<open>interface-datastore\<close>, built from a string and not cleaned
  (\<^verbatim>\<open>new Key(s, false)\<close>): the string as it is.
\<close>

datatype Key = Key string

text \<open>
  \<^verbatim>\<open>
  exports.bufferToKey = (buf) => {
    return new Key('/' + exports.encodeBase32(buf), false)
  }
  \<close>
\<close>

definition bufferToKey :: "buffer \<Rightarrow> Key" where
  "bufferToKey buf = Key (''/'' @ encodeBase32 buf)"

section \<open>Distance metric\<close>

text \<open>
  Modelled from the spec: the package \<^verbatim>\<open>xor-distance\<close> (\<^verbatim>\<open>const distance = require('xor-distance')\<close>)
  is not part of the sources. The spec gives its contract: \<^verbatim>\<open>xorDistance(a, b)\<close> fails with
  a length-mismatch error when the two identifiers differ in length and otherwise returns
  their byte-wise XOR; \<^verbatim>\<open>compareDistance(d1, d2)\<close> is the unsigned big-endian magnitude
  comparison, most significant byte first, answering less (\<open>-1\<close>), equal (\<open>0\<close>) or
  greater (\<open>1\<close>).
\<close>

definition LengthMismatch :: error where
  "LengthMismatch = Error ''Inputs should have the same length'' None"

definition xor_distance :: "buffer \<Rightarrow> buffer \<Rightarrow> error + buffer" where
  "xor_distance a b =
     (if length a \<noteq> length b then Inl LengthMismatch
      else Inr (map (\<lambda>(x, y). x XOR y) (zip a b)))"

text \<open>The scan for the first position where the two sequences differ.\<close>

fun compare_from :: "buffer \<Rightarrow> buffer \<Rightarrow> int" where
  "compare_from (x # xs) (y # ys) =
     (if x = y then compare_from xs ys else if x < y then - 1 else 1)"
| "compare_from _ _ = 0"

definition xor_distance_compare :: "buffer \<Rightarrow> buffer \<Rightarrow> error + int" where
  "xor_distance_compare a b =
     (if length a \<noteq> length b then Inl LengthMismatch else Inr (compare_from a b))"

section \<open>Closest-peer ranker\<close>

text \<open>
  A \<^verbatim>\<open>PeerId\<close> object; of its fields the code reads \<^verbatim>\<open>peer.id\<close>, the native identity bytes.
  Further fields live in the record's extension, so two peers with the same identity
  bytes can still be different objects.
\<close>

record PeerId =
  id_bytes :: buffer

text \<open>
  \<^verbatim>\<open>exports.convertBuffer = (buf) => multihashing.digest(buf, 'sha2-256')\<close>
  \<^verbatim>\<open>exports.convertPeerId = (peer) => multihashing.digest(peer.id, 'sha2-256')\<close>

  The hash primitive of \<^verbatim>\<open>multihashing-async\<close> is external; it is the parameter \<open>digest\<close>.
\<close>

definition convertBuffer :: "(buffer \<Rightarrow> buffer) \<Rightarrow> buffer \<Rightarrow> buffer" where
  "convertBuffer digest buf = digest buf"

definition convertPeerId :: "(buffer \<Rightarrow> buffer) \<Rightarrow> 'a PeerId_scheme \<Rightarrow> buffer" where
  "convertPeerId digest peer = digest (id_bytes peer)"

text \<open>The objects \<^verbatim>\<open>{ peer: peer, distance: distance(id, target) }\<close> that are sorted.\<close>

record 'p ranked =
  peer :: 'p
  distance :: buffer

text \<open>
  \<^verbatim>\<open>exports.xorCompare = (a, b) => distance.compare(a.distance, b.distance)\<close>
\<close>

definition xorCompare :: "'p ranked \<Rightarrow> 'p ranked \<Rightarrow> error + int" where
  "xorCompare a b = xor_distance_compare (distance a) (distance b)"

text \<open>
  \<^verbatim>\<open>Promise.all\<close> over the mapped peers: the list of all results, or the first failure.
\<close>

fun promise_all :: "(error + 'a) list \<Rightarrow> error + 'a list" where
  "promise_all [] = Inr []"
| "promise_all (Inl e # rs) = Inl e"
| "promise_all (Inr v # rs) =
     (case promise_all rs of Inl e \<Rightarrow> Inl e | Inr vs \<Rightarrow> Inr (v # vs))"

text \<open>
  \<^verbatim>\<open>Array.prototype.sort(comparefn)\<close> belongs to the language runtime. ECMAScript (2019
  and later) requires it to be stable, and an exception of the comparison function
  ends the sort. It is modelled as the stable insertion sort: an element goes in front
  of the first element it does not compare greater than.
\<close>

fun insert_sorted :: "('a \<Rightarrow> 'a \<Rightarrow> error + int) \<Rightarrow> 'a \<Rightarrow> 'a list \<Rightarrow> error + 'a list" where
  "insert_sorted comparefn x [] = Inr [x]"
| "insert_sorted comparefn x (y # ys) =
     (case comparefn x y of
        Inl e \<Rightarrow> Inl e
      | Inr c \<Rightarrow>
          if c \<le> 0 then Inr (x # y # ys)
          else (case insert_sorted comparefn x ys of
                  Inl e \<Rightarrow> Inl e
                | Inr zs \<Rightarrow> Inr (y # zs)))"

fun array_sort :: "('a \<Rightarrow> 'a \<Rightarrow> error + int) \<Rightarrow> 'a list \<Rightarrow> error + 'a list" where
  "array_sort comparefn [] = Inr []"
| "array_sort comparefn (x # xs) =
     (case array_sort comparefn xs of
        Inl e \<Rightarrow> Inl e
      | Inr ys \<Rightarrow> insert_sorted comparefn x ys)"

text \<open>
  \<^verbatim>\<open>
  exports.sortClosestPeers = async (peers, target) => {
    const distances = await Promise.all(peers.map(async (peer) => {
      const id = await exports.convertPeerId(peer)
      return { peer: peer, distance: distance(id, target) }
    }))
    return distances.sort(exports.xorCompare).map((d) => d.peer)
  }
  \<close>
\<close>

definition rank_peer ::
  "(buffer \<Rightarrow> buffer) \<Rightarrow> buffer \<Rightarrow> 'a PeerId_scheme \<Rightarrow> error + 'a PeerId_scheme ranked" where
  "rank_peer digest target p =
     (case xor_distance (convertPeerId digest p) target of
        Inl e \<Rightarrow> Inl e
      | Inr d \<Rightarrow> Inr \<lparr>peer = p, distance = d\<rparr>)"

definition sortClosestPeers ::
  "(buffer \<Rightarrow> buffer) \<Rightarrow> 'a PeerId_scheme list \<Rightarrow> buffer \<Rightarrow> error + 'a PeerId_scheme list" where
  "sortClosestPeers digest peers target =
     (case promise_all (map (rank_peer digest target) peers) of
        Inl e \<Rightarrow> Inl e
      | Inr distances \<Rightarrow>
          (case array_sort xorCompare distances of
             Inl e \<Rightarrow> Inl e
           | Inr sorted_distances \<Rightarrow> Inr (map peer sorted_distances)))"

text \<open>
  The order the ranking is stated in: the distance of \<open>p\<close> to the target compares less
  than or equal to the distance of \<open>q\<close> to the target.
\<close>

definition closer_or_equal ::
  "(buffer \<Rightarrow> buffer) \<Rightarrow> buffer \<Rightarrow> 'a PeerId_scheme \<Rightarrow> 'a PeerId_scheme \<Rightarrow> bool" where
  "closer_or_equal digest target p q =
     (case (xor_distance (convertPeerId digest p) target,
            xor_distance (convertPeerId digest q) target) of
        (Inr dp, Inr dq) \<Rightarrow>
          (case xor_distance_compare dp dq of Inr c \<Rightarrow> c \<le> 0 | Inl e \<Rightarrow> False)
      | _ \<Rightarrow> False)"

section \<open>Path allocator\<close>







section \<open>Resilient invoker: timeout\<close>

text \<open>How a promise settles: fulfilled with a value or rejected with a reason.\<close>

datatype ('e, 'a) outcome = Fulfilled 'a | Rejected 'e

text \<open>
  A promise is described by its settlement: the time (in milliseconds after the call)
  at which it settles and its outcome, or \<open>None\<close> for a promise that never settles.
\<close>

type_synonym 'a promise = "(nat \<times> (error, 'a) outcome) option"

text \<open>
  The argument \<^verbatim>\<open>timeout\<close>: left out (\<^verbatim>\<open>undefined\<close>), the number \<^verbatim>\<open>NaN\<close>, or a number of
  milliseconds. \<open>truthy\<close> is the test the code applies to it in \<^verbatim>\<open>!timeout\<close>.
\<close>

datatype timeout = Absent | NotANumber | Millis int

fun truthy :: "timeout \<Rightarrow> bool" where
  "truthy Absent = False"
| "truthy NotANumber = False"
| "truthy (Millis n) = (n \<noteq> 0)"

text \<open>
  The runtime's \<^verbatim>\<open>setTimeout(callback, timeout)\<close> (Node.js timers): a delay that is not a
  number from \<open>1\<close> to \<open>2147483647\<close> (\<open>2 ^ 31 - 1\<close>) is set to \<open>1\<close>. The callback runs
  once, that many milliseconds after the call plus whatever the scheduler adds (\<open>lag\<close>).
\<close>

fun delay :: "timeout \<Rightarrow> nat" where
  "delay (Millis n) = (if 1 \<le> n \<and> n \<le> 2147483647 then nat n else 1)"
| "delay _ = 1"

definition fires_at :: "timeout \<Rightarrow> nat \<Rightarrow> nat" where
  "fires_at timeout lag = delay timeout + lag"

text \<open>
  \<^verbatim>\<open>errcode(msg, code)\<close> of the package \<^verbatim>\<open>err-code\<close>: an \<^verbatim>\<open>Error\<close> with that message and
  its \<^verbatim>\<open>code\<close> property set.
\<close>

definition errcode :: "string \<Rightarrow> string \<Rightarrow> error" where
  "errcode msg c = Error msg (Some c)"

text \<open>
  \<^verbatim>\<open>errMsg || 'Promise timed out'\<close>: the argument may be left out, and \<^verbatim>\<open>||\<close> takes the
  right operand for every falsy left one, the empty string included.
\<close>

definition message_or :: "string option \<Rightarrow> string \<Rightarrow> string" where
  "message_or errMsg dflt =
     (case errMsg of None \<Rightarrow> dflt | Some m \<Rightarrow> if m = [] then dflt else m)"

text \<open>
  \<^verbatim>\<open>Promise.race\<close>: settles as the first of its promises to settle does; of two that
  settle at the same time the one listed first.
\<close>

fun promise_race :: "'a promise list \<Rightarrow> 'a promise" where
  "promise_race [] = None"
| "promise_race (p # ps) =
     (case (p, promise_race ps) of
        (None, r) \<Rightarrow> r
      | (Some (t, oc), None) \<Rightarrow> Some (t, oc)
      | (Some (t, oc), Some (t', oc')) \<Rightarrow> if t \<le> t' then Some (t, oc) else Some (t', oc'))"

text \<open>
  \<^verbatim>\<open>
  exports.promiseTimeout = (promise, timeout, errMsg) => {
    if (!timeout) {
      return promise
    }
    return Promise.race([
      promise,
      new Promise((resolve, reject) => setTimeout(() => {
        reject(errcode(errMsg || 'Promise timed out', 'ETIMEDOUT'))
      }, timeout))
    ])
  }
  \<close>
  The result is the returned promise together with the timers the call installed,
  each given by the time at which it fires.
\<close>

definition promiseTimeout ::
  "'a promise \<Rightarrow> timeout \<Rightarrow> string option \<Rightarrow> nat \<Rightarrow> 'a promise \<times> nat list" where
  "promiseTimeout promise timeout errMsg lag =
     (if \<not> truthy timeout then (promise, [])
      else
        (promise_race
           [promise,
            Some (fires_at timeout lag,
                  Rejected (errcode (message_or errMsg ''Promise timed out'') ''ETIMEDOUT''))],
         [fires_at timeout lag]))"

section \<open>Resilient invoker: retry\<close>

text \<open>The value an \<^verbatim>\<open>async\<close> function resolves with: \<^verbatim>\<open>undefined\<close> or a proper value.\<close>

datatype 'v jsvalue = Undefined | Value 'v

text \<open>The policy object \<^verbatim>\<open>options\<close> with its fields \<^verbatim>\<open>times\<close> and \<^verbatim>\<open>interval\<close>.\<close>

record options =
  times :: nat
  interval :: nat

text \<open>
  The wrapped operation \<^verbatim>\<open>fn\<close> is a function of the state of the world: awaiting
  \<^verbatim>\<open>fn()\<close> yields an outcome, or nothing when its promise never settles, and leaves
  a new state. What \<^verbatim>\<open>retry\<close> does is recorded as a trace: \<open>Called i\<close> for the invocation
  in iteration \<open>i\<close>, \<open>Slept ms\<close> for an awaited \<^verbatim>\<open>setTimeout(resolve, ms)\<close>.
\<close>

type_synonym ('s, 'e, 'v) operation = "'s \<Rightarrow> ('e, 'v) outcome option \<times> 's"

datatype event = Called nat | Slept nat

text \<open>
  \<^verbatim>\<open>
  exports.retry = async (options, fn) => {
    for (let i = 0; i < options.times + 1; i++) {
      try {
        await fn()
        return
      } catch (err) {
        if (i === options.times) {
          throw err
        }
      }
      await new Promise((resolve) => setTimeout(resolve, options.interval))
    }
  }
  \<close>
  \<open>retry_from\<close> is the loop from iteration \<open>i\<close> on; it returns how the promise of
  \<^verbatim>\<open>retry\<close> settles (\<open>None\<close>: never), the final state and the trace.
\<close>

function retry_from ::
  "options \<Rightarrow> ('s, 'e, 'v) operation \<Rightarrow> nat \<Rightarrow> 's \<Rightarrow> event list
     \<Rightarrow> ('e, 'v jsvalue) outcome option \<times> 's \<times> event list" where
  "retry_from options fn i s tr =
     (if i < times options + 1 then
        (case fn s of
           (Some (Fulfilled v), s') \<Rightarrow> (Some (Fulfilled Undefined), s', tr @ [Called i])
         | (Some (Rejected err), s') \<Rightarrow>
             if i = times options then (Some (Rejected err), s', tr @ [Called i])
             else retry_from options fn (i + 1) s' (tr @ [Called i, Slept (interval options)])
         | (None, s') \<Rightarrow> (None, s', tr @ [Called i]))
      else (Some (Fulfilled Undefined), s, tr))"
  by pat_completeness auto
termination
  by (relation "measure (\<lambda>(options, fn, i, s, tr). times options + 1 - i)") auto

definition retry ::
  "options \<Rightarrow> ('s, 'e, 'v) operation \<Rightarrow> 's \<Rightarrow> ('e, 'v jsvalue) outcome option \<times> 's \<times> event list" where
  "retry options fn s = retry_from options fn 0 s []"

text \<open>
  Vocabulary for the statements: the state after \<open>k\<close> invocations in sequence, the
  outcome of invocation number \<open>k\<close> (counted from 0), the trace of \<open>m\<close> failed attempts
  each followed by a pause and then one more attempt, and the number of invocations
  in a trace.
\<close>

fun state_after :: "('s, 'e, 'v) operation \<Rightarrow> 's \<Rightarrow> nat \<Rightarrow> 's" where
  "state_after fn s 0 = s"
| "state_after fn s (Suc k) = state_after fn (snd (fn s)) k"

definition attempt :: "('s, 'e, 'v) operation \<Rightarrow> 's \<Rightarrow> nat \<Rightarrow> ('e, 'v) outcome option" where
  "attempt fn s k = fst (fn (state_after fn s k))"

definition attempts_trace :: "nat \<Rightarrow> nat \<Rightarrow> nat \<Rightarrow> event list" where
  "attempts_trace ms i m = concat (map (\<lambda>j. [Called j, Slept ms]) [i..<m]) @ [Called m]"

fun is_call :: "event \<Rightarrow> bool" where
  "is_call (Called i) = True"
| "is_call (Slept ms) = False"

definition invocations :: "event list \<Rightarrow> nat" where
  "invocations tr = length (filter is_call tr)"

fun rejects :: "('e, 'v) outcome option \<Rightarrow> bool" where
  "rejects (Some (Rejected e)) = True"
| "rejects _ = False"

fun resolves :: "('e, 'v) outcome option \<Rightarrow> bool" where
  "resolves (Some (Fulfilled v)) = True"
| "resolves _ = False"

section \<open>Properties of the base32 codec\<close>

lemma mask_31: "(31::nat) = mask 5" and mask_255: "(255::nat) = mask 8"
  by (simp_all add: mask_eq_exp_minus_1)

lemma and_31_less: "(s :: nat) AND 31 < 32"
proof -
  have "take_bit 5 s < 2 ^ 5"
    by (rule take_bit_nat_less_exp)
  then show ?thesis
    by (simp add: mask_31 take_bit_eq_mask)
qed

lemma alphabet_roundtrip_all:
  "list_all (\<lambda>n. toUpperCase (alphabet ! n) \<noteq> CHR ''=''
      \<and> map_of charmap (toUpperCase (alphabet ! n)) = Some n) [0..<32]"
  by code_simp

lemma alphabet_roundtrip:
  assumes "n < 32"
  shows "toUpperCase (alphabet ! n) \<noteq> CHR ''=''"
    and "map_of charmap (toUpperCase (alphabet ! n)) = Some n"
  using alphabet_roundtrip_all assms by (simp_all add: list_all_iff)

lemma Decoder_step_alphabet:
  "Decoder_step d (toUpperCase (alphabet ! (s AND 31))) = Decoder_symbol d (s AND 31)"
proof -
  have "(s AND 31) AND 255 = s AND 31"
    by (rule bit_eqI) (auto simp: mask_31 mask_255 bit_simps simp flip: take_bit_eq_mask)
  then show ?thesis
    using alphabet_roundtrip [OF and_31_less [of s]] by (simp add: Decoder_step_def)
qed


lemma Decoder_write_append:
  "Decoder_write d (s @ t) = Decoder_write (Decoder_write d s) t"
  by (simp add: Decoder_write_def)

lemma Decoder_write_symbols:
  "Decoder_write d [alphabet ! (s AND 31)] = Decoder_symbol d (s AND 31)"
  "Decoder_write d [alphabet ! (s AND 31), alphabet ! (t AND 31)]
     = Decoder_symbol (Decoder_symbol d (s AND 31)) (t AND 31)"
  by (simp_all add: Decoder_write_def Decoder_step_alphabet)

text \<open>
  The bits of two neighbouring bytes \<open>b\<close> and \<open>b'\<close> in the symbols between them: \<open>k\<close> is
  the number of low bits of \<open>b\<close> that are still to be written.
\<close>

lemma pending_completes:
  fixes b b' :: "8 word"
  assumes "k \<le> 5"
  shows "push_bit k (drop_bit k (unat b))
      OR drop_bit (5 - k) ((push_bit (5 - k) (unat b) OR drop_bit (k + 3) (unat b')) AND 31) = unat b"
proof (rule bit_eqI)
  fix n
  show "bit (push_bit k (drop_bit k (unat b))
      OR drop_bit (5 - k) ((push_bit (5 - k) (unat b) OR drop_bit (k + 3) (unat b')) AND 31)) n
      = bit (unat b) n"
    using assms
    by (cases "n < k")
      (auto simp: mask_31 bit_simps simp flip: take_bit_eq_mask dest: bit_imp_le_length)
qed

lemma carry_after_first:
  fixes b b' :: "8 word"
  assumes "k < 5"
  shows "push_bit (k + 3) ((push_bit (5 - k) (unat b) OR drop_bit (k + 3) (unat b')) AND 31) AND 255
     = push_bit (k + 3) (drop_bit (k + 3) (unat b'))"
proof (rule bit_eqI)
  fix n
  show "bit (push_bit (k + 3) ((push_bit (5 - k) (unat b) OR drop_bit (k + 3) (unat b')) AND 31)
          AND 255) n
     = bit (push_bit (k + 3) (drop_bit (k + 3) (unat b'))) n"
    using assms
    by (cases "n < k + 3")
      (auto simp: mask_31 mask_255 bit_simps simp flip: take_bit_eq_mask dest: bit_imp_le_length)
qed

lemma carry_after_second:
  fixes b' :: "8 word"
  shows "push_bit (j + 5) (drop_bit (j + 5) (unat b')) OR push_bit j (drop_bit j (unat b') AND 31)
     = push_bit j (drop_bit j (unat b'))"
proof (rule bit_eqI)
  fix n
  show "bit (push_bit (j + 5) (drop_bit (j + 5) (unat b'))
          OR push_bit j (drop_bit j (unat b') AND 31)) n
     = bit (push_bit j (drop_bit j (unat b'))) n"
    by (cases "n < j + 5")
      (auto simp: mask_31 bit_simps simp flip: take_bit_eq_mask dest: bit_imp_le_length)
qed

lemma drop_bit_8_byte: "drop_bit 8 (unat (b :: 8 word)) = 0"
  by (rule bit_eqI) (auto simp: bit_simps dest: bit_imp_le_length)

lemma top_five:
  "push_bit 3 (drop_bit 3 (unat (b :: 8 word)) AND 31) = push_bit 3 (drop_bit 3 (unat b))"
  using carry_after_second [of 3 b] by (simp add: drop_bit_8_byte)


lemma step_sync_short:
  fixes b b' :: "8 word"
  assumes "es = 4 \<or> es = 5"
    and "Decoder_write new_Decoder out =
      \<lparr>dec_buf = pre, dec_shift = int es - 3,
       dec_carry = push_bit (es - 3) (drop_bit (es - 3) (unat b))\<rparr>"
  defines "e' \<equiv> Encoder_step \<lparr>enc_buf = out, enc_shift = es, enc_carry = push_bit (8 - es) (unat b)\<rparr> b'"
  shows "enc_shift e' = es + 3"
    and "enc_carry e' = push_bit (8 - enc_shift e') (unat b')"
    and "Decoder_write new_Decoder (enc_buf e') =
      \<lparr>dec_buf = pre @ [unat b], dec_shift = int (enc_shift e') - 3,
       dec_carry = push_bit (enc_shift e' - 3) (drop_bit (enc_shift e' - 3) (unat b'))\<rparr>"
proof -
  show "enc_shift e' = es + 3"
    using assms(1) by (auto simp: e'_def Encoder_step_def Let_def)
  show "enc_carry e' = push_bit (8 - enc_shift e') (unat b')"
    using assms(1) by (auto simp: e'_def Encoder_step_def Let_def)
  show "Decoder_write new_Decoder (enc_buf e') =
      \<lparr>dec_buf = pre @ [unat b], dec_shift = int (enc_shift e') - 3,
       dec_carry = push_bit (enc_shift e' - 3) (drop_bit (enc_shift e' - 3) (unat b'))\<rparr>"
    using assms(1)
  proof
    assume es: "es = 4"
    show ?thesis
      using assms(2) pending_completes [of 1 b b'] carry_after_first [of 1 b b']
      by (simp add: es e'_def Encoder_step_def Let_def Decoder_write_append
          Decoder_write_symbols Decoder_symbol_def)
  next
    assume es: "es = 5"
    show ?thesis
      using assms(2) pending_completes [of 2 b b'] carry_after_first [of 2 b b']
      by (simp add: es e'_def Encoder_step_def Let_def Decoder_write_append
          Decoder_write_symbols Decoder_symbol_def)
  qed
qed


lemma step_sync_long:
  fixes b b' :: "8 word"
  assumes "es = 6 \<or> es = 7 \<or> es = 8"
    and "Decoder_write new_Decoder out =
      \<lparr>dec_buf = pre, dec_shift = int es - 3,
       dec_carry = push_bit (es - 3) (drop_bit (es - 3) (unat b))\<rparr>"
  defines "e' \<equiv> Encoder_step \<lparr>enc_buf = out, enc_shift = es, enc_carry = push_bit (8 - es) (unat b)\<rparr> b'"
  shows "enc_shift e' = es - 2"
    and "enc_carry e' = push_bit (8 - enc_shift e') (unat b')"
    and "Decoder_write new_Decoder (enc_buf e') =
      \<lparr>dec_buf = pre @ [unat b], dec_shift = int (enc_shift e') - 3,
       dec_carry = push_bit (enc_shift e' - 3) (drop_bit (enc_shift e' - 3) (unat b'))\<rparr>"
proof -
  show "enc_shift e' = es - 2"
    using assms(1) by (auto simp: e'_def Encoder_step_def Let_def)
  show "enc_carry e' = push_bit (8 - enc_shift e') (unat b')"
    using assms(1) by (auto simp: e'_def Encoder_step_def Let_def)
  show "Decoder_write new_Decoder (enc_buf e') =
      \<lparr>dec_buf = pre @ [unat b], dec_shift = int (enc_shift e') - 3,
       dec_carry = push_bit (enc_shift e' - 3) (drop_bit (enc_shift e' - 3) (unat b'))\<rparr>"
    using assms(1)
  proof (elim disjE)
    assume es: "es = 6"
    show ?thesis
      using assms(2) pending_completes [of 3 b b'] carry_after_first [of 3 b b']
        carry_after_second [of 1 b']
      by (simp add: es e'_def Encoder_step_def Let_def Decoder_write_append
          Decoder_write_symbols Decoder_symbol_def)
  next
    assume es: "es = 7"
    show ?thesis
      using assms(2) pending_completes [of 4 b b'] carry_after_first [of 4 b b']
        carry_after_second [of 2 b']
      by (simp add: es e'_def Encoder_step_def Let_def Decoder_write_append
          Decoder_write_symbols Decoder_symbol_def)
  next
    assume es: "es = 8"
    show ?thesis
      using assms(2) pending_completes [of 5 b b'] top_five [of b']
      by (simp add: es e'_def Encoder_step_def Let_def Decoder_write_append
          Decoder_write_symbols Decoder_symbol_def drop_bit_8_byte)
  qed
qed

lemma step_sync_first:
  fixes b' :: "8 word"
  defines "e' \<equiv> Encoder_step new_Encoder b'"
  shows "enc_shift e' = 6"
    and "enc_carry e' = push_bit (8 - enc_shift e') (unat b')"
    and "Decoder_write new_Decoder (enc_buf e') =
      \<lparr>dec_buf = [], dec_shift = int (enc_shift e') - 3,
       dec_carry = push_bit (enc_shift e' - 3) (drop_bit (enc_shift e' - 3) (unat b'))\<rparr>"
  using top_five [of b']
  by (simp_all add: e'_def new_Encoder_def new_Decoder_def Encoder_step_def Let_def
      Decoder_write_symbols Decoder_symbol_def)


text \<open>
  The decoder, fed what the encoder has written so far, is one byte behind: it holds
  all bytes but the last, and of the last byte the high bits; the encoder still
  carries the low bits.
\<close>

lemma Encoder_write_snoc:
  "Encoder_write e (bs @ [b]) = Encoder_step (Encoder_write e bs) b"
  by (simp add: Encoder_write_def)

lemma sync_invariant:
  assumes "bs \<noteq> []"
  shows "(enc_shift (Encoder_write new_Encoder bs) = 4 \<or> enc_shift (Encoder_write new_Encoder bs) = 5
        \<or> enc_shift (Encoder_write new_Encoder bs) = 6 \<or> enc_shift (Encoder_write new_Encoder bs) = 7
        \<or> enc_shift (Encoder_write new_Encoder bs) = 8)
     \<and> enc_carry (Encoder_write new_Encoder bs)
         = push_bit (8 - enc_shift (Encoder_write new_Encoder bs)) (unat (last bs))
     \<and> Decoder_write new_Decoder (enc_buf (Encoder_write new_Encoder bs)) =
         \<lparr>dec_buf = map unat (butlast bs),
          dec_shift = int (enc_shift (Encoder_write new_Encoder bs)) - 3,
          dec_carry = push_bit (enc_shift (Encoder_write new_Encoder bs) - 3)
            (drop_bit (enc_shift (Encoder_write new_Encoder bs) - 3) (unat (last bs)))\<rparr>"
  using assms
proof (induction bs rule: rev_nonempty_induct)
  case (single b')
  have "Encoder_write new_Encoder [b'] = Encoder_step new_Encoder b'"
    by (simp add: Encoder_write_def)
  then show ?case
    using step_sync_first [of b'] by simp
next
  case (snoc b' bs)
  define e where "e = Encoder_write new_Encoder bs"
  define es where "es = enc_shift e"
  have e: "e = \<lparr>enc_buf = enc_buf e, enc_shift = es, enc_carry = push_bit (8 - es) (unat (last bs))\<rparr>"
    using snoc.IH by (simp add: e_def es_def)
  have d: "Decoder_write new_Decoder (enc_buf e) =
      \<lparr>dec_buf = map unat (butlast bs), dec_shift = int es - 3,
       dec_carry = push_bit (es - 3) (drop_bit (es - 3) (unat (last bs)))\<rparr>"
    using snoc.IH by (simp add: e_def es_def)
  have next_e: "Encoder_write new_Encoder (bs @ [b']) =
      Encoder_step \<lparr>enc_buf = enc_buf e, enc_shift = es,
        enc_carry = push_bit (8 - es) (unat (last bs))\<rparr> b'"
    using e by (simp add: Encoder_write_snoc e_def)
  have bytes: "map unat (butlast bs) @ [unat (last bs)] = map unat (butlast (bs @ [b']))"
  proof -
    have "butlast bs @ [last bs] = bs"
      using snoc.hyps by simp
    then have "map unat (butlast bs @ [last bs]) = map unat bs"
      by (simp only:)
    then show ?thesis
      by simp
  qed
  consider "es = 4 \<or> es = 5" | "es = 6 \<or> es = 7 \<or> es = 8"
    using snoc.IH by (auto simp: e_def es_def)
  then show ?case
  proof cases
    case 1
    show ?thesis
      using step_sync_short [OF 1 d, of b'] 1 bytes
      by (simp only: next_e) auto
  next
    case 2
    show ?thesis
      using step_sync_long [OF 2 d, of b'] 2 bytes
      by (simp only: next_e) auto
  qed
qed


lemma finalize_sync:
  fixes b :: "8 word"
  assumes "es = 4 \<or> es = 5 \<or> es = 6 \<or> es = 7 \<or> es = 8"
    and "Decoder_write new_Decoder out =
      \<lparr>dec_buf = pre, dec_shift = int es - 3,
       dec_carry = push_bit (es - 3) (drop_bit (es - 3) (unat b))\<rparr>"
  shows "Decoder_finalize (Decoder_write new_Decoder
      (Encoder_finalize \<lparr>enc_buf = out, enc_shift = es, enc_carry = push_bit (8 - es) (unat b)\<rparr>))
    = pre @ [unat b]"
  using assms(1)
proof (elim disjE)
  assume es: "es = 4"
  show ?thesis
    using assms(2) pending_completes [of 1 b 0] carry_after_first [of 1 b 0]
    by (simp add: es Encoder_finalize_def Decoder_finalize_def Decoder_write_append
        Decoder_write_symbols Decoder_symbol_def)
next
  assume es: "es = 5"
  show ?thesis
    using assms(2) pending_completes [of 2 b 0] carry_after_first [of 2 b 0]
    by (simp add: es Encoder_finalize_def Decoder_finalize_def Decoder_write_append
        Decoder_write_symbols Decoder_symbol_def)
next
  assume es: "es = 6"
  show ?thesis
    using assms(2) pending_completes [of 3 b 0] carry_after_first [of 3 b 0]
    by (simp add: es Encoder_finalize_def Decoder_finalize_def Decoder_write_append
        Decoder_write_symbols Decoder_symbol_def)
next
  assume es: "es = 7"
  show ?thesis
    using assms(2) pending_completes [of 4 b 0] carry_after_first [of 4 b 0]
    by (simp add: es Encoder_finalize_def Decoder_finalize_def Decoder_write_append
        Decoder_write_symbols Decoder_symbol_def)
next
  assume es: "es = 8"
  show ?thesis
    using assms(2) pending_completes [of 5 b 0]
    by (simp add: es Encoder_finalize_def Decoder_finalize_def Decoder_write_append
        Decoder_write_symbols Decoder_symbol_def)
qed

lemma decode_encode_nat:
  "Decoder_finalize (Decoder_write new_Decoder
      (Encoder_finalize (Encoder_write new_Encoder bs))) = map unat bs"
proof (cases "bs = []")
  case True
  then show ?thesis
    by (simp add: Encoder_write_def Decoder_write_def new_Encoder_def new_Decoder_def
        Encoder_finalize_def Decoder_finalize_def)
next
  case False
  define e where "e = Encoder_write new_Encoder bs"
  define es where "es = enc_shift e"
  note inv = sync_invariant [OF False, folded e_def, folded es_def]
  have e: "e = \<lparr>enc_buf = enc_buf e, enc_shift = es, enc_carry = push_bit (8 - es) (unat (last bs))\<rparr>"
    using inv by (simp add: es_def)
  have es: "es = 4 \<or> es = 5 \<or> es = 6 \<or> es = 7 \<or> es = 8"
    using inv by blast
  have d: "Decoder_write new_Decoder (enc_buf e) =
      \<lparr>dec_buf = map unat (butlast bs), dec_shift = int es - 3,
       dec_carry = push_bit (es - 3) (drop_bit (es - 3) (unat (last bs)))\<rparr>"
    using inv by blast
  have "Decoder_finalize (Decoder_write new_Decoder (Encoder_finalize e))
      = map unat (butlast bs) @ [unat (last bs)]"
    using finalize_sync [OF es d] e by simp
  also have "\<dots> = map unat (butlast bs @ [last bs])"
    by simp
  also have "butlast bs @ [last bs] = bs"
    using False by simp
  finally show ?thesis
    by (simp add: e_def)
qed

text \<open>
  C8. Decoding the base32 text of a byte sequence gives the byte sequence back.
\<close>

theorem decodeBase32_encodeBase32: "decodeBase32 (encodeBase32 x) = x"
proof -
  have "decodeBase32 (encodeBase32 x) = map of_nat (map unat x)"
    by (simp only: decodeBase32_def encodeBase32_def decode_encode_nat)
  also have "\<dots> = x"
    by (simp add: comp_def)
  finally show ?thesis .
qed

lemma encodeBase32_injective:
  assumes "encodeBase32 x = encodeBase32 y"
  shows "x = y"
proof -
  have "map unat x = Decoder_finalize (Decoder_write new_Decoder (encodeBase32 x))"
    by (simp only: encodeBase32_def decode_encode_nat)
  also have "\<dots> = Decoder_finalize (Decoder_write new_Decoder (encodeBase32 y))"
    by (simp only: assms)
  also have "\<dots> = map unat y"
    by (simp only: encodeBase32_def decode_encode_nat)
  finally have "map unat x = map unat y" .
  then have "map (of_nat :: nat \<Rightarrow> 8 word) (map unat x) = map of_nat (map unat y)"
    by (simp only:)
  then show ?thesis
    by (simp add: comp_def)
qed

text \<open>
  C1. The specification has \<open>bufferToKey\<close> encode the SHA2-256 identifier of the buffer;
  the code encodes the buffer itself. For the five bytes of \<^verbatim>\<open>hello\<close> the key is the base32
  text of those five bytes, and whenever the identifier of a buffer differs from the
  buffer the key differs from the one made of the identifier.
\<close>

theorem bufferToKey_encodes_raw_buffer:
  "bufferToKey [104, 101, 108, 108, 111] = Key ''/NBSWY3DP''
   \<and> (\<forall>digest buf. convertBuffer digest buf \<noteq> buf \<longrightarrow>
         bufferToKey buf \<noteq> Key (''/'' @ encodeBase32 (convertBuffer digest buf)))"
proof -
  have "encodeBase32 [104, 101, 108, 108, 111] = ''NBSWY3DP''"
    by code_simp
  then have "bufferToKey [104, 101, 108, 108, 111] = Key ''/NBSWY3DP''"
    by (simp add: bufferToKey_def)
  moreover have "bufferToKey buf \<noteq> Key (''/'' @ encodeBase32 (convertBuffer digest buf))"
    if "convertBuffer digest buf \<noteq> buf" for digest buf
    using that encodeBase32_injective [of buf "convertBuffer digest buf"]
    by (auto simp: bufferToKey_def)
  ultimately show ?thesis
    by blast
qed

text \<open>
  The SHA2-256 digest of \<^verbatim>\<open>hello\<close> has 32 bytes, so the key of \<^verbatim>\<open>hello\<close> is not the one made
  from its digest.
\<close>

theorem bufferToKey_encodes_raw_buffer_witness:
  "convertBuffer (\<lambda>b. [44, 242, 77, 186, 95, 176, 163, 14, 38, 232, 59, 42, 197, 185, 226, 158, 27, 22, 30, 92, 31, 167, 66, 94, 115, 4, 51, 98, 147, 139, 152, 36]) [104, 101, 108, 108, 111] \<noteq> [104, 101, 108, 108, 111]
   \<and> bufferToKey [104, 101, 108, 108, 111]
       \<noteq> Key (''/'' @ encodeBase32 (convertBuffer (\<lambda>b. [44, 242, 77, 186, 95, 176, 163, 14, 38, 232, 59, 42, 197, 185, 226, 158, 27, 22, 30, 92, 31, 167, 66, 94, 115, 4, 51, 98, 147, 139, 152, 36]) [104, 101, 108, 108, 111]))"
proof -
  let ?digest = "\<lambda>b :: buffer. [44, 242, 77, 186, 95, 176, 163, 14, 38, 232, 59, 42, 197, 185, 226, 158, 27, 22, 30, 92, 31, 167, 66, 94, 115, 4, 51, 98, 147, 139, 152, 36] :: buffer"
  have differs: "convertBuffer ?digest [104, 101, 108, 108, 111] \<noteq> [104, 101, 108, 108, 111]"
    by (simp add: convertBuffer_def)
  from bufferToKey_encodes_raw_buffer [THEN conjunct2, rule_format, OF differs] differs
  show ?thesis
    by (simp only: simp_thms)
qed

section \<open>Properties of the distance metric\<close>

lemma xor_zip_commute:
  "map (\<lambda>(x, y). x XOR y) (zip a b) = map (\<lambda>(x, y). x XOR y) (zip b (a :: buffer))"
proof (induction a arbitrary: b)
  case Nil
  then show ?case by simp
next
  case (Cons x xs)
  show ?case
  proof (cases b)
    case Nil
    then show ?thesis by simp
  next
    case (Cons y ys)
    then show ?thesis
      using Cons.IH [of ys] by (simp add: xor.commute)
  qed
qed

lemma xor_zip_self: "map (\<lambda>(x, y). x XOR y) (zip a (a :: buffer)) = replicate (length a) 0"
  by (induction a) simp_all

lemma compare_from_lex:
  "length a = length b \<Longrightarrow>
     compare_from a b = (if a = b then 0 else if a < b then - 1 else 1)"
proof (induction a b rule: compare_from.induct)
  case (1 x xs y ys)
  then show ?case by auto
qed simp_all

lemma compare_from_zero: "compare_from (replicate (length d) 0) d \<le> 0"
proof (induction d)
  case Nil
  then show ?case by simp
next
  case (Cons y ys)
  then show ?case
    by (cases "y = 0") (simp_all add: word_neq_0_conv)
qed

text \<open>
  C9. For identifiers \<open>a\<close> and \<open>b\<close> of equal length the XOR distance is commutative, the
  distance of \<open>a\<close> to itself is the all-zero sequence of the same length, and that
  sequence compares less than or equal to every sequence of that length.
\<close>

theorem xor_distance_commutative_zero_minimum:
  assumes "length a = length b"
  shows "xor_distance a b = xor_distance b a
       \<and> (\<exists>d. xor_distance a b = Inr d \<and> length d = length a)
       \<and> xor_distance a a = Inr (replicate (length a) 0)
       \<and> (\<forall>d. length d = length a \<longrightarrow>
            (\<exists>c. xor_distance_compare (replicate (length a) 0) d = Inr c \<and> c \<le> 0))"
proof -
  have "xor_distance a b = xor_distance b a"
    using assms xor_zip_commute [of a b] by (simp add: xor_distance_def)
  moreover have "\<exists>d. xor_distance a b = Inr d \<and> length d = length a"
    using assms by (simp add: xor_distance_def)
  moreover have "xor_distance a a = Inr (replicate (length a) 0)"
    by (simp add: xor_distance_def xor_zip_self)
  moreover have "\<exists>c. xor_distance_compare (replicate (length a) 0) d = Inr c \<and> c \<le> 0"
    if "length d = length a" for d
    using that compare_from_zero [of d] by (simp add: xor_distance_compare_def)
  ultimately show ?thesis by blast
qed

theorem xor_distance_commutative_zero_minimum_witness:
  "length [1, 2 :: 8 word] = length [3, 6 :: 8 word]
   \<and> xor_distance [1, 2] [3, 6] = Inr [2, 4]
   \<and> xor_distance [3, 6] [1, 2] = Inr [2, 4]
   \<and> xor_distance [1, 2] [1, 2] = Inr [0, 0]
   \<and> xor_distance_compare [0, 0] [2, 4] = Inr (- 1)"
proof -
  have len: "length [1, 2 :: 8 word] = length [3, 6 :: 8 word]" by simp
  have "xor_distance [1, 2] [3, 6] = xor_distance [3, 6] [1, 2]"
    using xor_distance_commutative_zero_minimum [OF len] by blast
  moreover have "xor_distance [1, 2] [3, 6] = Inr [2, 4]"
    by (simp add: xor_distance_def)
  moreover have "xor_distance [1, 2] [1, 2] = Inr [0, 0]"
    using xor_distance_commutative_zero_minimum [OF len] by (simp add: numeral_2_eq_2)
  moreover have "xor_distance_compare [0, 0] [2, 4] = Inr (- 1)"
    by (simp add: xor_distance_compare_def)
  ultimately show ?thesis using len by simp
qed

section \<open>Properties of the closest-peer ranker\<close>

lemma xor_distance_compare_le:
  assumes "length a = length b"
  shows "xor_distance_compare a b = Inr (compare_from a b)"
    and "compare_from a b \<le> 0 \<longleftrightarrow> a \<le> b"
  using assms by (auto simp: xor_distance_compare_def compare_from_lex)

lemma insert_sorted_insort_key:
  assumes "\<forall>e \<in> set (x # ys). length (distance e) = n"
  shows "insert_sorted xorCompare x ys = Inr (insort_key distance x ys)"
  using assms
proof (induction ys)
  case Nil
  then show ?case by simp
next
  case (Cons y ys)
  have len: "length (distance x) = length (distance y)"
    using Cons.prems by simp
  have IH: "insert_sorted xorCompare x ys = Inr (insort_key distance x ys)"
    using Cons by simp
  have cmp: "xorCompare x y = Inr (compare_from (distance x) (distance y))"
    using xor_distance_compare_le(1) [OF len] by (simp add: xorCompare_def)
  show ?case
    using cmp xor_distance_compare_le(2) [OF len] IH by simp
qed

lemma array_sort_sort_key:
  assumes "\<forall>e \<in> set es. length (distance e) = n"
  shows "array_sort xorCompare es = Inr (sort_key distance es)"
  using assms
proof (induction es)
  case Nil
  then show ?case by simp
next
  case (Cons e es)
  have "\<forall>e' \<in> set (e # sort_key distance es). length (distance e') = n"
    using Cons.prems by simp
  then have "insert_sorted xorCompare e (sort_key distance es)
      = Inr (insort_key distance e (sort_key distance es))"
    by (rule insert_sorted_insort_key)
  then show ?case
    using Cons by simp
qed

lemma promise_all_Inr:
  assumes "\<forall>x \<in> set xs. f x = Inr (g x)"
  shows "promise_all (map f xs) = Inr (map g xs)"
  using assms by (induction xs) simp_all

lemma insort_key_map:
  "insort_key f (g x) (map g xs) = map g (insort_key (\<lambda>a. f (g a)) x xs)"
  by (induction xs) simp_all

lemma sort_key_map: "sort_key f (map g xs) = map g (sort_key (\<lambda>a. f (g a)) xs)"
  by (induction xs) (simp_all add: insort_key_map)

text \<open>The distance of a peer to the target, when the lengths agree.\<close>

lemma rank_peer_Inr:
  assumes "length (digest (id_bytes p)) = length target"
  shows "rank_peer digest target p =
    Inr \<lparr>peer = p, distance = map (\<lambda>(x, y). x XOR y) (zip (digest (id_bytes p)) target)\<rparr>"
  using assms by (simp add: rank_peer_def xor_distance_def convertPeerId_def)

lemma sortClosestPeers_sort_key:
  assumes "\<forall>p \<in> set peers. length (digest (id_bytes p)) = length target"
  shows "sortClosestPeers digest peers target =
    Inr (sort_key (\<lambda>p. map (\<lambda>(x, y). x XOR y) (zip (digest (id_bytes p)) target)) peers)"
proof -
  let ?d = "\<lambda>p. map (\<lambda>(x, y). x XOR y) (zip (digest (id_bytes p)) target)"
  let ?mk = "\<lambda>p. \<lparr>peer = p, distance = ?d p\<rparr>"
  have all: "promise_all (map (rank_peer digest target) peers) = Inr (map ?mk peers)"
    using assms by (intro promise_all_Inr) (simp add: rank_peer_Inr)
  have "\<forall>e \<in> set (map ?mk peers). length (distance e) = length target"
    using assms by simp
  then have "array_sort xorCompare (map ?mk peers) = Inr (sort_key distance (map ?mk peers))"
    by (rule array_sort_sort_key)
  also have "sort_key distance (map ?mk peers) = map ?mk (sort_key ?d peers)"
    by (simp add: sort_key_map)
  finally have srt: "array_sort xorCompare (map ?mk peers) = Inr (map ?mk (sort_key ?d peers))" .
  have "map peer (map ?mk (sort_key ?d peers)) = sort_key ?d peers"
    by (simp add: comp_def)
  then show ?thesis
    using all srt by (simp add: sortClosestPeers_def)
qed

lemma closer_or_equal_le:
  assumes "length (digest (id_bytes p)) = length target"
    and "length (digest (id_bytes q)) = length target"
  shows "closer_or_equal digest target p q \<longleftrightarrow>
     map (\<lambda>(x, y). x XOR y) (zip (digest (id_bytes p)) target)
       \<le> map (\<lambda>(x, y). x XOR y) (zip (digest (id_bytes q)) target)"
proof -
  let ?dp = "map (\<lambda>(x, y). x XOR y) (zip (digest (id_bytes p)) target)"
  let ?dq = "map (\<lambda>(x, y). x XOR y) (zip (digest (id_bytes q)) target)"
  have len: "length ?dp = length ?dq"
    using assms by simp
  show ?thesis
    using assms xor_distance_compare_le [OF len]
    by (simp add: closer_or_equal_def xor_distance_def convertPeerId_def)
qed

text \<open>
  C2. For peers whose derived identifiers have the length of the target,
  \<open>sortClosestPeers\<close> returns a permutation of its input that is ordered ascending by
  the XOR distance to the target, so that its first element is at most as far as every
  element, and peers at equal distance keep the relative order of the input.
\<close>

theorem sortClosestPeers_stable_sorted_permutation:
  assumes "\<forall>p \<in> set peers. length (digest (id_bytes p)) = length target"
  shows "\<exists>out. sortClosestPeers digest peers target = Inr out
           \<and> mset out = mset peers
           \<and> sorted_wrt (closer_or_equal digest target) out
           \<and> (\<forall>p \<in> set out. closer_or_equal digest target (hd out) p)
           \<and> (\<forall>d. filter (\<lambda>p. xor_distance (convertPeerId digest p) target = Inr d) out
                  = filter (\<lambda>p. xor_distance (convertPeerId digest p) target = Inr d) peers)"
proof -
  let ?d = "\<lambda>p. map (\<lambda>(x, y). x XOR y) (zip (digest (id_bytes p)) target)"
  let ?out = "sort_key ?d peers"
  have len: "\<forall>p \<in> set ?out. length (digest (id_bytes p)) = length target"
    using assms by simp
  have res: "sortClosestPeers digest peers target = Inr ?out"
    using assms by (rule sortClosestPeers_sort_key)
  have perm: "mset ?out = mset peers"
    by simp
  have "sorted (map ?d ?out)"
    by (rule sorted_sort_key)
  then have "sorted_wrt (\<lambda>p q. ?d p \<le> ?d q) ?out"
    by (simp add: sorted_map)
  moreover have "closer_or_equal digest target p q"
    if "p \<in> set ?out" and "q \<in> set ?out" and "?d p \<le> ?d q" for p q
    using that len by (simp add: closer_or_equal_le)
  ultimately have srt: "sorted_wrt (closer_or_equal digest target) ?out"
    by (rule sorted_wrt_mono_rel [rotated])
  have first: "\<forall>p \<in> set ?out. closer_or_equal digest target (hd ?out) p"
  proof
    fix p assume p: "p \<in> set ?out"
    then obtain x xs where out: "?out = x # xs"
      by (cases ?out) auto
    have "closer_or_equal digest target x x"
      using len out by (simp add: closer_or_equal_le)
    moreover have "\<forall>y \<in> set xs. closer_or_equal digest target x y"
      using srt out by simp
    ultimately show "closer_or_equal digest target (hd ?out) p"
      using p out by auto
  qed
  have key: "(xor_distance (convertPeerId digest p) target = Inr d) = (?d p = d)"
    if "p \<in> set peers" for p d
    using that assms by (simp add: xor_distance_def convertPeerId_def)
  have stable: "filter (\<lambda>p. xor_distance (convertPeerId digest p) target = Inr d) ?out
      = filter (\<lambda>p. xor_distance (convertPeerId digest p) target = Inr d) peers" for d
  proof -
    have "filter (\<lambda>p. xor_distance (convertPeerId digest p) target = Inr d) ?out
        = filter (\<lambda>p. ?d p = d) ?out"
      by (rule filter_cong) (simp_all add: key)
    also have "\<dots> = filter (\<lambda>p. ?d p = d) peers"
      by (rule sort_key_stable)
    also have "\<dots> = filter (\<lambda>p. xor_distance (convertPeerId digest p) target = Inr d) peers"
      by (rule filter_cong) (simp_all add: key)
    finally show ?thesis .
  qed
  show ?thesis
    using res perm srt first stable by blast
qed


theorem sortClosestPeers_stable_sorted_permutation_witness:
  "sortClosestPeers (\<lambda>b. [of_nat (length b), sum_list b])
     [\<lparr>id_bytes = [3], \<dots> = 0 :: nat\<rparr>, \<lparr>id_bytes = [1], \<dots> = 1\<rparr>, \<lparr>id_bytes = [3], \<dots> = 2\<rparr>]
     [1, 0]
   = Inr [\<lparr>id_bytes = [1], \<dots> = 1\<rparr>, \<lparr>id_bytes = [3], \<dots> = 0\<rparr>, \<lparr>id_bytes = [3], \<dots> = 2\<rparr>]
   \<and> closer_or_equal (\<lambda>b. [of_nat (length b), sum_list b]) [1, 0]
        \<lparr>id_bytes = [1], \<dots> = 1 :: nat\<rparr> \<lparr>id_bytes = [3], \<dots> = 0\<rparr>"
proof -
  let ?digest = "\<lambda>b :: buffer. [of_nat (length b), sum_list b] :: buffer"
  let ?A = "\<lparr>id_bytes = [3], \<dots> = 0 :: nat\<rparr>"
  let ?B = "\<lparr>id_bytes = [1], \<dots> = 1 :: nat\<rparr>"
  let ?C = "\<lparr>id_bytes = [3], \<dots> = 2 :: nat\<rparr>"
  have len: "\<forall>p \<in> set [?A, ?B, ?C]. length (?digest (id_bytes p)) = length [1, 0 :: 8 word]"
    by simp
  obtain out where out: "sortClosestPeers ?digest [?A, ?B, ?C] [1, 0] = Inr out"
    and srt: "sorted_wrt (closer_or_equal ?digest [1, 0]) out"
    using sortClosestPeers_stable_sorted_permutation [OF len] by blast
  have val: "sortClosestPeers ?digest [?A, ?B, ?C] [1, 0] = Inr [?B, ?A, ?C]"
    by (simp add: sortClosestPeers_def rank_peer_def convertPeerId_def xor_distance_def
        xorCompare_def xor_distance_compare_def)
  then have "out = [?B, ?A, ?C]"
    using out by simp
  then have "closer_or_equal ?digest [1, 0] ?B ?A"
    using srt by simp
  then show ?thesis
    using val by simp
qed

section \<open>Properties of the path allocator\<close>




















section \<open>Properties of promiseTimeout\<close>

text \<open>
  C5. With a \<open>timeout\<close> that is absent, zero or otherwise falsy, \<open>promiseTimeout\<close> returns
  the promise it was given, so its outcome is that promise's own whenever (and if
  ever) it settles, and no timer is installed.
\<close>

theorem promiseTimeout_falsy_returns_promise:
  "(\<not> truthy timeout \<longrightarrow> promiseTimeout p timeout errMsg lag = (p, []))
   \<and> promiseTimeout p Absent errMsg lag = (p, [])
   \<and> promiseTimeout p (Millis 0) errMsg lag = (p, [])
   \<and> promiseTimeout p NotANumber errMsg lag = (p, [])"
  by (simp add: promiseTimeout_def)

theorem promiseTimeout_falsy_returns_promise_witness:
  "\<not> truthy (Millis 0)
   \<and> promiseTimeout (Some (10000, Fulfilled (7 :: nat))) (Millis 0) None 0
       = (Some (10000, Fulfilled 7), [])"
proof -
  have falsy: "\<not> truthy (Millis 0)"
    by simp
  from promiseTimeout_falsy_returns_promise
    [of "Millis 0" "Some (10000, Fulfilled (7 :: nat))" None 0, THEN conjunct1, rule_format, OF falsy]
  show ?thesis
    using falsy by simp
qed

text \<open>
  C6. With a positive \<open>timeout\<close> of at most \<open>2147483647\<close> milliseconds one timer of that
  delay is installed. If it fires before the promise settles (or the promise never
  settles) the result is rejected, when the timer fires, with an error of code
  \<^verbatim>\<open>ETIMEDOUT\<close> whose message is \<open>errMsg\<close>, or \<^verbatim>\<open>Promise timed out\<close> when \<open>errMsg\<close> is absent
  (or empty); if the promise settles before the timer fires the result is the promise's
  own settlement.
\<close>

theorem promiseTimeout_race:
  assumes "0 < n" and "n \<le> 2147483647"
  shows "snd (promiseTimeout p (Millis n) errMsg lag) = [nat n + lag]
       \<and> ((p = None \<or> (\<exists>t oc. p = Some (t, oc) \<and> nat n + lag < t)) \<longrightarrow>
            fst (promiseTimeout p (Millis n) errMsg lag)
              = Some (nat n + lag,
                  Rejected (Error (case errMsg of None \<Rightarrow> ''Promise timed out''
                                   | Some m \<Rightarrow> if m = [] then ''Promise timed out'' else m)
                             (Some ''ETIMEDOUT''))))
       \<and> (\<forall>t oc. p = Some (t, oc) \<and> t < nat n + lag \<longrightarrow>
            fst (promiseTimeout p (Millis n) errMsg lag) = Some (t, oc))"
  using assms
  by (auto simp: promiseTimeout_def fires_at_def errcode_def message_or_def split: option.splits)

theorem promiseTimeout_race_witness:
  "(0 :: int) < 50 \<and> (50 :: int) \<le> 2147483647
   \<and> fst (promiseTimeout (Some (200, Fulfilled (7 :: nat))) (Millis 50) None 0)
       = Some (50, Rejected (Error ''Promise timed out'' (Some ''ETIMEDOUT'')))
   \<and> fst (promiseTimeout (Some (10, Fulfilled (7 :: nat))) (Millis 50) None 0)
       = Some (10, Fulfilled 7)"
proof -
  have pos: "(0 :: int) < 50" and bound: "(50 :: int) \<le> 2147483647"
    by simp_all
  have late: "Some (200, Fulfilled (7 :: nat)) = None
      \<or> (\<exists>t oc. Some (200, Fulfilled (7 :: nat)) = Some (t, oc) \<and> nat 50 + 0 < t)"
    by simp
  have early: "Some (10, Fulfilled (7 :: nat)) = Some (10, Fulfilled 7) \<and> 10 < nat 50 + 0"
    by simp
  note slow = promiseTimeout_race [OF pos bound, of "Some (200, Fulfilled (7 :: nat))" None 0,
      THEN conjunct2, THEN conjunct1, rule_format, OF late]
  note fast = promiseTimeout_race [OF pos bound, of "Some (10, Fulfilled (7 :: nat))" None 0,
      THEN conjunct2, THEN conjunct2, rule_format, OF early]
  show ?thesis
    using slow fast by simp
qed

text \<open>
  Beyond that bound the timer is not one of \<open>timeout\<close> milliseconds: with a timeout of
  \<open>2147483648\<close> the runtime fires it after one millisecond, and a promise that settles
  after 100 milliseconds, long before the timeout, loses the race.
\<close>

theorem promiseTimeout_race_counterexample:
  "promiseTimeout (Some (100, Fulfilled (7 :: nat))) (Millis 2147483648) None 0
     = (Some (1, Rejected (Error ''Promise timed out'' (Some ''ETIMEDOUT''))), [1])
   \<and> (100 :: nat) < nat 2147483648
   \<and> fst (promiseTimeout (Some (100, Fulfilled (7 :: nat))) (Millis 2147483648) None 0)
       \<noteq> Some (100, Fulfilled 7)"
  by (simp add: promiseTimeout_def fires_at_def errcode_def message_or_def)

section \<open>Properties of retry\<close>

declare retry_from.simps [simp del]

text \<open>What the promise of \<open>retry\<close> makes of the outcome of the attempt it stops at.\<close>

lemma retry_from_stop:
  assumes "m \<le> times options" and "\<not> rejects (fst (fn s)) \<or> m = times options"
  shows "retry_from options fn m s tr =
    ((case fst (fn s) of
        Some (Fulfilled v) \<Rightarrow> Some (Fulfilled Undefined)
      | Some (Rejected err) \<Rightarrow> Some (Rejected err)
      | None \<Rightarrow> None), snd (fn s), tr @ [Called m])"
proof (cases "fn s")
  case (Pair r s')
  show ?thesis
  proof (cases r)
    case None
    then show ?thesis
      using assms(1) Pair by (subst retry_from.simps) simp
  next
    case (Some oc)
    show ?thesis
    proof (cases oc)
      case (Fulfilled v)
      then show ?thesis
        using assms(1) Pair Some by (subst retry_from.simps) simp
    next
      case (Rejected err)
      then show ?thesis
        using assms Pair Some by (subst retry_from.simps) simp
    qed
  qed
qed

lemma retry_from_continue:
  assumes "i < times options" and "rejects (fst (fn s))"
  shows "retry_from options fn i s tr =
    retry_from options fn (i + 1) (snd (fn s)) (tr @ [Called i, Slept (interval options)])"
proof (cases "fn s")
  case (Pair r s')
  then obtain err where "r = Some (Rejected err)"
    using assms(2) by (cases r rule: rejects.cases) simp_all
  then show ?thesis
    using assms(1) Pair by (subst retry_from.simps) simp
qed

lemma attempt_Suc: "attempt fn s (Suc k) = attempt fn (snd (fn s)) k"
  by (simp add: attempt_def)

lemma retry_from_skip:
  assumes "i + k \<le> times options" and "\<forall>j<k. rejects (attempt fn s j)"
  shows "retry_from options fn i s tr =
    retry_from options fn (i + k) (state_after fn s k)
      (tr @ concat (map (\<lambda>j. [Called j, Slept (interval options)]) [i..<i + k]))"
  using assms
proof (induction k arbitrary: i s tr)
  case 0
  then show ?case by simp
next
  case (Suc k)
  have first: "rejects (fst (fn s))"
    using Suc.prems(2) by (auto simp: attempt_def dest: spec [of _ 0])
  have rest: "\<forall>j<k. rejects (attempt fn (snd (fn s)) j)"
    using Suc.prems(2) by (auto simp: attempt_Suc [symmetric])
  have "retry_from options fn i s tr =
      retry_from options fn (i + 1) (snd (fn s)) (tr @ [Called i, Slept (interval options)])"
    using Suc.prems(1) first by (intro retry_from_continue) simp_all
  also have "\<dots> = retry_from options fn (i + 1 + k) (state_after fn (snd (fn s)) k)
      ((tr @ [Called i, Slept (interval options)])
         @ concat (map (\<lambda>j. [Called j, Slept (interval options)]) [i + 1..<i + 1 + k]))"
    using Suc.prems(1) rest by (intro Suc.IH) simp_all
  also have "[i..<i + Suc k] = i # [i + 1..<i + 1 + k]"
    by (simp add: upt_conv_Cons)
  then have "(tr @ [Called i, Slept (interval options)])
         @ concat (map (\<lambda>j. [Called j, Slept (interval options)]) [i + 1..<i + 1 + k])
       = tr @ concat (map (\<lambda>j. [Called j, Slept (interval options)]) [i..<i + Suc k])"
    by simp
  finally show ?case by simp
qed

lemma retry_stops_at:
  assumes "m \<le> times options" and "\<forall>j<m. rejects (attempt fn s j)"
    and "\<not> rejects (attempt fn s m) \<or> m = times options"
  shows "retry options fn s =
    ((case attempt fn s m of
        Some (Fulfilled v) \<Rightarrow> Some (Fulfilled Undefined)
      | Some (Rejected err) \<Rightarrow> Some (Rejected err)
      | None \<Rightarrow> None), state_after fn s (Suc m), attempts_trace (interval options) 0 m)"
proof -
  have "retry options fn s = retry_from options fn m (state_after fn s m)
      (concat (map (\<lambda>j. [Called j, Slept (interval options)]) [0..<m]))"
    using retry_from_skip [of 0 m options fn s "[]"] assms(1,2) by (simp add: retry_def)
  moreover have "state_after fn s (Suc m) = snd (fn (state_after fn s m))"
    by (induction m arbitrary: s) simp_all
  ultimately show ?thesis
    using retry_from_stop [of m options fn "state_after fn s m"] assms(1,3)
    by (simp add: attempt_def attempts_trace_def)
qed

lemma retry_stop_exists:
  "\<exists>m \<le> times options. (\<forall>j<m. rejects (attempt fn s j))
      \<and> (\<not> rejects (attempt fn s m) \<or> m = times options)"
proof (cases "\<exists>k \<le> times options. \<not> rejects (attempt fn s k)")
  case True
  define m where "m = (LEAST k. \<not> rejects (attempt fn s k))"
  from True obtain k where k: "k \<le> times options" "\<not> rejects (attempt fn s k)"
    by blast
  have "\<not> rejects (attempt fn s m)"
    unfolding m_def using k(2) by (rule LeastI)
  moreover have "m \<le> k"
    unfolding m_def using k(2) by (rule Least_le)
  moreover have "\<forall>j<m. rejects (attempt fn s j)"
    unfolding m_def using not_less_Least by blast
  ultimately show ?thesis
    using k(1) by (intro exI [of _ m]) simp
next
  case False
  then show ?thesis
    by (intro exI [of _ "times options"]) auto
qed

lemma invocations_append: "invocations (xs @ ys) = invocations xs + invocations ys"
  by (simp add: invocations_def)

lemma invocations_pairs:
  "invocations (concat (map (\<lambda>j. [Called j, Slept ms]) [i..<i + k])) = k"
proof (induction k)
  case 0
  then show ?case by (simp add: invocations_def)
next
  case (Suc k)
  have "[i..<i + Suc k] = [i..<i + k] @ [i + k]"
    by simp
  then show ?case
    using Suc by (simp add: invocations_append) (simp add: invocations_def)
qed

lemma invocations_attempts_trace: "invocations (attempts_trace ms 0 m) = m + 1"
  using invocations_pairs [of ms 0 m]
  by (simp add: attempts_trace_def invocations_append) (simp add: invocations_def)


text \<open>
  C3. \<open>retry\<close> invokes the operation at most \<open>times + 1\<close> times; the invocations are in
  sequence, each one starting in the state the previous one left and only after the
  previous one was rejected and the pause was awaited; the first invocation that
  succeeds is the last one; with \<open>times = 0\<close> there is exactly one invocation and no
  pause.
\<close>

theorem retry_bounded_sequential:
  "\<exists>m \<le> times options.
       snd (snd (retry options fn s)) = attempts_trace (interval options) 0 m
     \<and> invocations (snd (snd (retry options fn s))) = m + 1
     \<and> invocations (snd (snd (retry options fn s))) \<le> times options + 1
     \<and> fst (snd (retry options fn s)) = state_after fn s (m + 1)
     \<and> (\<forall>j<m. rejects (attempt fn s j))
     \<and> (\<forall>k \<le> times options.
           (\<forall>j<k. rejects (attempt fn s j)) \<and> resolves (attempt fn s k) \<longrightarrow>
             k = m \<and> fst (retry options fn s) = Some (Fulfilled Undefined))
     \<and> (times options = 0 \<longrightarrow> snd (snd (retry options fn s)) = [Called 0])"
proof -
  obtain m where m: "m \<le> times options" "\<forall>j<m. rejects (attempt fn s j)"
      "\<not> rejects (attempt fn s m) \<or> m = times options"
    using retry_stop_exists [of options fn s] by blast
  note run = retry_stops_at [OF m]
  have trace: "snd (snd (retry options fn s)) = attempts_trace (interval options) 0 m"
    by (simp add: run)
  have count: "invocations (snd (snd (retry options fn s))) = m + 1"
    by (simp only: trace invocations_attempts_trace)
  have state: "fst (snd (retry options fn s)) = state_after fn s (m + 1)"
    by (simp add: run)
  have success: "k = m \<and> fst (retry options fn s) = Some (Fulfilled Undefined)"
    if k: "k \<le> times options" "\<forall>j<k. rejects (attempt fn s j)" "resolves (attempt fn s k)" for k
  proof -
    have nrej: "\<not> rejects (attempt fn s k)"
      using k(3) by (cases "attempt fn s k" rule: rejects.cases) simp_all
    have "\<not> k < m"
      using m(2) nrej by blast
    moreover have "\<not> m < k"
      using m(3) k(1,2) by auto
    ultimately have "k = m"
      by simp
    moreover have "fst (retry options fn s) = Some (Fulfilled Undefined)"
      using k(3) \<open>k = m\<close> by (cases "attempt fn s m" rule: resolves.cases) (simp_all add: run)
    ultimately show ?thesis ..
  qed
  have single: "snd (snd (retry options fn s)) = [Called 0]" if "times options = 0"
    using that m(1) trace by (simp add: attempts_trace_def)
  have bound: "invocations (snd (snd (retry options fn s))) \<le> times options + 1"
    using count m(1) by simp
  have success': "\<forall>k \<le> times options.
      (\<forall>j<k. rejects (attempt fn s j)) \<and> resolves (attempt fn s k) \<longrightarrow>
        k = m \<and> fst (retry options fn s) = Some (Fulfilled Undefined)"
    using success by blast
  have single': "times options = 0 \<longrightarrow> snd (snd (retry options fn s)) = [Called 0]"
    using single by blast
  show ?thesis
    by (intro exI [of _ m] conjI) (fact m(1) trace count bound state m(2) success' single')+
qed

theorem retry_bounded_sequential_witness:
  "retry \<lparr>times = 2, interval = 10\<rparr>
     (\<lambda>n :: nat. (Some (if n < 2 then Rejected n else Fulfilled n), n + 1)) 0
   = (Some (Fulfilled Undefined), 3, [Called 0, Slept 10, Called 1, Slept 10, Called 2])
   \<and> invocations [Called 0, Slept 10, Called 1, Slept 10, Called 2] = 3"
proof -
  let ?fn = "\<lambda>n :: nat. (Some (if n < 2 then Rejected n else Fulfilled n :: (nat, nat) outcome), n + 1)"
  let ?options = "\<lparr>times = 2, interval = 10\<rparr>"
  have val: "retry ?options ?fn 0
      = (Some (Fulfilled Undefined), 3, [Called 0, Slept 10, Called 1, Slept 10, Called 2])"
    by code_simp
  obtain m where count: "invocations (snd (snd (retry ?options ?fn 0))) = m + 1"
      and first: "\<forall>k \<le> times ?options.
           (\<forall>j<k. rejects (attempt ?fn 0 j)) \<and> resolves (attempt ?fn 0 k) \<longrightarrow> k = m"
    using retry_bounded_sequential [of ?options ?fn 0] by blast
  have third: "(\<forall>j<2. rejects (attempt ?fn 0 j)) \<and> resolves (attempt ?fn 0 2)"
    by (simp add: attempt_def numeral_2_eq_2 less_Suc_eq)
  have "2 \<le> times ?options"
    by simp
  from first [rule_format, OF this third] have "2 = m" .
  then have "invocations (snd (snd (retry ?options ?fn 0))) = 3"
    using count by simp
  then show ?thesis
    using val by simp
qed

text \<open>
  C4. When every invocation fails, \<open>retry\<close> rejects with the very error of invocation
  number \<open>times + 1\<close>, the last one, after exactly \<open>times + 1\<close> invocations; the errors
  of the earlier invocations do not appear in the result.
\<close>

theorem retry_rejects_with_last_error:
  assumes "\<forall>k \<le> times options. rejects (attempt fn s k)"
  shows "\<exists>err. attempt fn s (times options) = Some (Rejected err)
           \<and> fst (retry options fn s) = Some (Rejected err)
           \<and> invocations (snd (snd (retry options fn s))) = times options + 1"
proof -
  obtain err where err: "attempt fn s (times options) = Some (Rejected err)"
    using assms by (cases "attempt fn s (times options)" rule: rejects.cases) auto
  have "retry options fn s =
      (Some (Rejected err), state_after fn s (Suc (times options)),
       attempts_trace (interval options) 0 (times options))"
    using retry_stops_at [of "times options" options fn s] assms err by simp
  then show ?thesis
    using err by (simp add: invocations_attempts_trace)
qed

theorem retry_rejects_with_last_error_witness:
  "rejects (attempt (\<lambda>n :: nat. (Some (Rejected n :: (nat, unit) outcome), n + 1)) 0 2)
   \<and> fst (retry \<lparr>times = 2, interval = 10\<rparr>
            (\<lambda>n :: nat. (Some (Rejected n :: (nat, unit) outcome), n + 1)) 0)
       = Some (Rejected 2)"
proof -
  let ?fn = "\<lambda>n :: nat. (Some (Rejected n :: (nat, unit) outcome), n + 1)"
  let ?options = "\<lparr>times = 2, interval = 10\<rparr>"
  have fails: "\<forall>k \<le> times ?options. rejects (attempt ?fn 0 k)"
    by (simp add: attempt_def)
  have last: "attempt ?fn 0 2 = Some (Rejected 2)"
    by (simp add: attempt_def numeral_2_eq_2)
  obtain err where "attempt ?fn 0 (times ?options) = Some (Rejected err)"
      and "fst (retry ?options ?fn 0) = Some (Rejected err)"
    using retry_rejects_with_last_error [OF fails] by blast
  then show ?thesis
    using last by simp
qed

text \<open>
  C10. A \<open>retry\<close> that succeeds resolves with \<^verbatim>\<open>undefined\<close>: whatever value the successful
  invocation produced is dropped.
\<close>

theorem retry_resolves_undefined:
  "(\<forall>x. fst (retry options fn s) = Some (Fulfilled x) \<longrightarrow> x = Undefined)
   \<and> (\<forall>k \<le> times options. \<forall>v.
         (\<forall>j<k. rejects (attempt fn s j)) \<and> attempt fn s k = Some (Fulfilled v) \<longrightarrow>
           fst (retry options fn s) = Some (Fulfilled Undefined))"
proof -
  obtain m where m: "m \<le> times options" "\<forall>j<m. rejects (attempt fn s j)"
      "\<not> rejects (attempt fn s m) \<or> m = times options"
    using retry_stop_exists [of options fn s] by blast
  have "x = Undefined" if "fst (retry options fn s) = Some (Fulfilled x)" for x
    using that retry_stops_at [OF m]
    by (cases "attempt fn s m" rule: resolves.cases) simp_all
  moreover have "fst (retry options fn s) = Some (Fulfilled Undefined)"
    if "k \<le> times options" and "\<forall>j<k. rejects (attempt fn s j)"
      and "attempt fn s k = Some (Fulfilled v)" for k v
    using retry_stops_at [of k options fn s] that by simp
  ultimately show ?thesis
    by blast
qed

theorem retry_resolves_undefined_witness:
  "attempt (\<lambda>n :: nat. (Some (Fulfilled 42 :: (unit, nat) outcome), n + 1)) 0 0
     = Some (Fulfilled 42)
   \<and> fst (retry \<lparr>times = 1, interval = 10\<rparr>
            (\<lambda>n :: nat. (Some (Fulfilled 42 :: (unit, nat) outcome), n + 1)) 0)
       = Some (Fulfilled Undefined)"
proof -
  let ?fn = "\<lambda>n :: nat. (Some (Fulfilled 42 :: (unit, nat) outcome), n + 1)"
  let ?options = "\<lparr>times = 1, interval = 10\<rparr>"
  have first: "attempt ?fn 0 0 = Some (Fulfilled 42)"
    by (simp add: attempt_def)
  then have hyp: "(\<forall>j<0. rejects (attempt ?fn 0 j)) \<and> attempt ?fn 0 0 = Some (Fulfilled 42)"
    by simp
  have "0 \<le> times ?options"
    by simp
  from retry_resolves_undefined [of ?options ?fn 0, THEN conjunct2, rule_format, OF this hyp]
  have "fst (retry ?options ?fn 0) = Some (Fulfilled Undefined)" .
  then show ?thesis
    using first by simp
qed

end
